theory Spec2Isabelle
  imports Main "HOL-Library.Word"
begin

section \<open>Data model of SmartMemoryPool.hh\<close>

text \<open>
  The header defines one fixed-capacity pool class, \<^verbatim>\<open>SmartMemoryPool<DerivedType, BaseType>\<close>,
  and the deleter \<^verbatim>\<open>SmartDeleter<B>\<close> attached to every handle the pool issues.  The model is
  sequential: one thread runs one operation after the other.  The element type is the type
  variable \<open>'v\<close>; \<^verbatim>\<open>DerivedType\<close> and \<^verbatim>\<open>BaseType\<close> are taken to be the same type (or \<^verbatim>\<open>BaseType\<close>
  to have a virtual destructor and to sit at offset 0), so that \<^verbatim>\<open>ptr->~B()\<close> and
  \<^verbatim>\<open>p->~value_type()\<close> destroy the same object.

  A pool object is identified by a token: the cell that \<^verbatim>\<open>mThisPtr\<close> owns.  The world maps the
  tokens of the live pools to their objects, so \<^verbatim>\<open>std::weak_ptr::lock\<close> is a lookup in that
  map, and it fails once the pool's destructor has removed the entry.  Tokens are never
  reused.
\<close>

type_synonym token = nat

text \<open>A \<^verbatim>\<open>MemoryBlock*\<close> (equally a \<^verbatim>\<open>DerivedType*\<close>): null, or block \<open>i\<close> of the slab of pool \<open>t\<close>.\<close>

datatype pointer = Null | Slot token nat

text \<open>
  \<^verbatim>\<open>union MemoryBlock { aligned_storage_t<...> mStorage; MemoryBlock* mNext; }\<close>.  The storage
  member holds a live value (\<open>Some v\<close>) or bytes without a live object (\<open>None\<close>).
\<close>

datatype 'v MemoryBlock = mNext pointer | mStorage "'v option"

record 'v SmartMemoryPool =
  mCapacity :: "64 word"
  mPool :: "'v MemoryBlock list"
  mNextFree :: pointer
  mAvailable :: "64 word"

text \<open>
  What an operation does in order, as far as an observer can tell: the pops and pushes of the
  free list, the updates of the counter, and the runs of the value's constructor and
  destructor.
\<close>

datatype 'v event =
    Popped pointer
  | Pushed pointer
  | Decremented token
  | Incremented token
  | Constructed pointer 'v
  | Destroyed pointer 'v

record 'v world =
  pools :: "token \<rightharpoonup> 'v SmartMemoryPool"
  next_token :: token
  events :: "'v event list"

text \<open>Undefined behaviour of the C++ program is a fault of the model.\<close>

datatype fault =
    NullDereference
  | OutOfBounds
  | UseAfterFree
  | InactiveMember
  | SignedOverflow
  | NoObject

datatype SmartDeleter = SmartDeleter (mParentPool: token)

text \<open>\<^verbatim>\<open>std::unique_ptr<value_type, SmartDeleter<BaseType>>\<close>: the address and the deleter.\<close>

record unique_ptr =
  get :: pointer
  get_deleter :: SmartDeleter

section \<open>Memory access\<close>

fun load_block :: "pointer \<Rightarrow> 'v world \<Rightarrow> fault + 'v MemoryBlock" where
  "load_block Null w = Inl NullDereference"
| "load_block (Slot t i) w =
     (case pools w t of
        None \<Rightarrow> Inl UseAfterFree
      | Some p \<Rightarrow> if i < length (mPool p) then Inr (mPool p ! i) else Inl OutOfBounds)"

fun store_block :: "pointer \<Rightarrow> 'v MemoryBlock \<Rightarrow> 'v world \<Rightarrow> fault + 'v world" where
  "store_block Null b w = Inl NullDereference"
| "store_block (Slot t i) b w =
     (case pools w t of
        None \<Rightarrow> Inl UseAfterFree
      | Some p \<Rightarrow>
          if i < length (mPool p)
          then Inr (w\<lparr>pools := (pools w)(t \<mapsto> p\<lparr>mPool := (mPool p)[i := b]\<rparr>)\<rparr>)
          else Inl OutOfBounds)"

text \<open>\<^verbatim>\<open>item->mNext\<close> read: defined only while the link is the active member of the union.\<close>

definition load_mNext :: "pointer \<Rightarrow> 'v world \<Rightarrow> fault + pointer" where
  "load_mNext item w =
     (case load_block item w of
        Inl e \<Rightarrow> Inl e
      | Inr (mNext q) \<Rightarrow> Inr q
      | Inr (mStorage _) \<Rightarrow> Inl InactiveMember)"

definition store_mNext :: "pointer \<Rightarrow> pointer \<Rightarrow> 'v world \<Rightarrow> fault + 'v world" where
  "store_mNext item q w = store_block item (mNext q) w"

text \<open>\<^verbatim>\<open>new (mem) value_type(args...)\<close>: the constructed value is \<open>v\<close>.\<close>

definition placement_new :: "pointer \<Rightarrow> 'v \<Rightarrow> 'v world \<Rightarrow> fault + 'v world" where
  "placement_new mem v w =
     (case store_block mem (mStorage (Some v)) w of
        Inl e \<Rightarrow> Inl e
      | Inr w' \<Rightarrow> Inr (w'\<lparr>events := events w' @ [Constructed mem v]\<rparr>))"

text \<open>\<^verbatim>\<open>ptr->~B()\<close>: needs a live value at the address; afterwards the storage holds none.\<close>

definition destroy_at :: "pointer \<Rightarrow> 'v world \<Rightarrow> fault + 'v world" where
  "destroy_at ptr w =
     (case load_block ptr w of
        Inl e \<Rightarrow> Inl e
      | Inr (mNext _) \<Rightarrow> Inl NoObject
      | Inr (mStorage None) \<Rightarrow> Inl NoObject
      | Inr (mStorage (Some v)) \<Rightarrow>
          (case store_block ptr (mStorage None) w of
             Inl e \<Rightarrow> Inl e
           | Inr w' \<Rightarrow> Inr (w'\<lparr>events := events w' @ [Destroyed ptr v]\<rparr>)))"

section \<open>The atomics\<close>

text \<open>
  \<^verbatim>\<open>mNextFree.compare_exchange_strong(expected, desired)\<close>: returns whether the exchange took
  place, and the value \<open>expected\<close> holds afterwards (the current head when it failed).
\<close>

definition compare_exchange_strong ::
  "token \<Rightarrow> pointer \<Rightarrow> pointer \<Rightarrow> 'v world \<Rightarrow> fault + ((bool \<times> pointer) \<times> 'v world)" where
  "compare_exchange_strong this expected desired w =
     (case pools w this of
        None \<Rightarrow> Inl NoObject
      | Some p \<Rightarrow>
          if mNextFree p = expected
          then Inr ((True, expected), w\<lparr>pools := (pools w)(this \<mapsto> p\<lparr>mNextFree := desired\<rparr>)\<rparr>)
          else Inr ((False, mNextFree p), w))"

text \<open>\<^verbatim>\<open>mAvailable++\<close> and \<^verbatim>\<open>mAvailable--\<close> on a \<^verbatim>\<open>std::atomic<uint64_t>\<close>: they wrap.\<close>

definition fetch_add :: "token \<Rightarrow> 'v world \<Rightarrow> fault + 'v world" where
  "fetch_add this w =
     (case pools w this of
        None \<Rightarrow> Inl NoObject
      | Some p \<Rightarrow>
          Inr (w\<lparr>pools := (pools w)(this \<mapsto> p\<lparr>mAvailable := mAvailable p + 1\<rparr>),
                 events := events w @ [Incremented this]\<rparr>))"

definition fetch_sub :: "token \<Rightarrow> 'v world \<Rightarrow> fault + 'v world" where
  "fetch_sub this w =
     (case pools w this of
        None \<Rightarrow> Inl NoObject
      | Some p \<Rightarrow>
          Inr (w\<lparr>pools := (pools w)(this \<mapsto> p\<lparr>mAvailable := mAvailable p - 1\<rparr>),
                 events := events w @ [Decremented this]\<rparr>))"

section \<open>Constructor and destructor of the pool\<close>

text \<open>
  \<^verbatim>\<open>for (auto i = 1; i < mCapacity; i++) mPool[i-1].mNext = &mPool[i];\<close>
  The counter is an \<^verbatim>\<open>int\<close>, converted to \<^verbatim>\<open>uint64_t\<close> for the comparison with the capacity.
  Incrementing it at \<^verbatim>\<open>INT_MAX\<close> is a signed overflow.
\<close>

function ctor_loop :: "token \<Rightarrow> 64 word \<Rightarrow> int \<Rightarrow> 'v MemoryBlock list \<Rightarrow> fault + 'v MemoryBlock list" where
  "ctor_loop this capacity i blocks =
     (if (word_of_int i :: 64 word) < capacity then
        (if 0 < i \<and> nat i < length blocks then
           (let blocks' = blocks[nat (i - 1) := mNext (Slot this (nat i))] in
            if 2147483647 \<le> i then Inl SignedOverflow
            else ctor_loop this capacity (i + 1) blocks')
         else Inl OutOfBounds)
      else Inr blocks)"
  by pat_completeness auto
termination
  by (relation "measure (\<lambda>(this, capacity, i, blocks). nat (2147483647 - i))") auto

text \<open>
  The member initialisers in declaration order: \<^verbatim>\<open>mCapacity{capacity}\<close>, \<^verbatim>\<open>mPool\<close> from
  \<^verbatim>\<open>make_unique<MemoryBlock[]>(mCapacity)\<close> (value-initialised, so every link is null),
  \<^verbatim>\<open>mNextFree{nullptr}\<close>, \<^verbatim>\<open>mAvailable{mCapacity}\<close>, \<^verbatim>\<open>mThisPtr\<close> a fresh cell; then the body.
  The storage for the slab is assumed to be obtainable.
\<close>

definition SmartMemoryPool_ctor :: "64 word \<Rightarrow> 'v world \<Rightarrow> fault + (token \<times> 'v world)" where
  "SmartMemoryPool_ctor capacity w =
     (let this = next_token w in
      case ctor_loop this capacity 1 (replicate (unat capacity) (mNext Null)) of
        Inl e \<Rightarrow> Inl e
      | Inr blocks \<Rightarrow>
          Inr (this,
               w\<lparr>pools := (pools w)(this \<mapsto>
                    \<lparr>mCapacity = capacity, mPool = blocks,
                     mNextFree = Slot this 0, mAvailable = capacity\<rparr>),
                 next_token := this + 1\<rparr>))"

text \<open>
  \<^verbatim>\<open>~SmartMemoryPool() = default\<close>: the members go, the token cell and the slab with them.  No
  destructor of a value still held in the slab runs.
\<close>

definition SmartMemoryPool_dtor :: "token \<Rightarrow> 'v world \<Rightarrow> fault + 'v world" where
  "SmartMemoryPool_dtor this w =
     (case pools w this of
        None \<Rightarrow> Inl NoObject
      | Some p \<Rightarrow> Inr (w\<lparr>pools := (pools w)(this := None)\<rparr>))"

section \<open>allocate and deallocate\<close>

text \<open>
  \<^verbatim>\<open>while (item != nullptr && !mNextFree.compare_exchange_strong(item, item->mNext)) {}\<close>
  The argument \<^verbatim>\<open>item->mNext\<close> is read before the exchange is attempted.
\<close>

function allocate_loop :: "token \<Rightarrow> pointer \<Rightarrow> 'v world \<Rightarrow> fault + (pointer \<times> 'v world)" where
  "allocate_loop this item w =
     (if item \<noteq> Null then
        (case load_mNext item w of
           Inl e \<Rightarrow> Inl e
         | Inr desired \<Rightarrow>
             (case compare_exchange_strong this item desired w of
                Inl e \<Rightarrow> Inl e
              | Inr ((ok, item'), w') \<Rightarrow>
                  if \<not> ok then allocate_loop this item' w' else Inr (item', w')))
      else Inr (item, w))"
  by pat_completeness auto
termination
  apply (relation "measure (\<lambda>(this, item, w).
         if (\<exists>p. pools w this = Some p \<and> mNextFree p = item) then 0 else 1)")
   apply simp
  apply (auto simp: compare_exchange_strong_def split: option.splits if_splits)
  done

definition allocate :: "token \<Rightarrow> 'v world \<Rightarrow> fault + (pointer option \<times> 'v world)" where
  "allocate this w =
     (case pools w this of
        None \<Rightarrow> Inl NoObject
      | Some p \<Rightarrow>
          (case allocate_loop this (mNextFree p) w of
             Inl e \<Rightarrow> Inl e
           | Inr (item, w') \<Rightarrow>
               if item = Null then Inr (None, w')
               else Inr (Some item, w'\<lparr>events := events w' @ [Popped item]\<rparr>)))"

text \<open>
  \<^verbatim>\<open>while (!mNextFree.compare_exchange_strong(item->mNext, item)) {}\<close>
  The expected value is \<^verbatim>\<open>item->mNext\<close> itself, by reference: a failed exchange writes the
  current head into it.
\<close>

function deallocate_loop :: "token \<Rightarrow> pointer \<Rightarrow> 'v world \<Rightarrow> fault + 'v world" where
  "deallocate_loop this item w =
     (case load_mNext item w of
        Inl e \<Rightarrow> Inl e
      | Inr expected \<Rightarrow>
          (case compare_exchange_strong this expected item w of
             Inl e \<Rightarrow> Inl e
           | Inr ((ok, expected'), w') \<Rightarrow>
               if \<not> ok then
                 (case store_mNext item expected' w' of
                    Inl e \<Rightarrow> Inl e
                  | Inr w'' \<Rightarrow> deallocate_loop this item w'')
               else Inr w'))"
  by pat_completeness auto
termination
  apply (relation "measure (\<lambda>(this, item, w).
         if (\<exists>p. pools w this = Some p \<and> load_mNext item w = Inr (mNextFree p)) then 0 else 1)")
   apply simp
  subgoal for this item w expected x y ok' expected' w' w''
    by (cases item)
       (auto simp: compare_exchange_strong_def load_mNext_def store_mNext_def
             split: option.splits if_splits)
  done

text \<open>\<^verbatim>\<open>void deallocate(BaseType* p)\<close>: the release of a slot.\<close>

definition deallocate :: "token \<Rightarrow> pointer \<Rightarrow> 'v world \<Rightarrow> fault + 'v world" where
  "deallocate this p w =
     (case pools w this of
        None \<Rightarrow> Inl NoObject
      | Some pool \<Rightarrow>
          (case store_mNext p (mNextFree pool) w of
             Inl e \<Rightarrow> Inl e
           | Inr w1 \<Rightarrow>
               (case deallocate_loop this p w1 of
                  Inl e \<Rightarrow> Inl e
                | Inr w2 \<Rightarrow> fetch_add this (w2\<lparr>events := events w2 @ [Pushed p]\<rparr>))))"

section \<open>construct, destruct, available\<close>

text \<open>
  \<^verbatim>\<open>unique_ptr construct(Args&&... args)\<close>.  Both returned handles carry a deleter built from
  \<^verbatim>\<open>std::weak_ptr(mThisPtr)\<close>, the token of this pool.
\<close>

definition construct :: "token \<Rightarrow> 'v \<Rightarrow> 'v world \<Rightarrow> fault + (unique_ptr \<times> 'v world)" where
  "construct this v w =
     (case allocate this w of
        Inl e \<Rightarrow> Inl e
      | Inr (maybe_mem, w1) \<Rightarrow>
          (case maybe_mem of
             None \<Rightarrow> Inr (\<lparr>get = Null, get_deleter = SmartDeleter this\<rparr>, w1)
           | Some mem \<Rightarrow>
               (case fetch_sub this w1 of
                  Inl e \<Rightarrow> Inl e
                | Inr w2 \<Rightarrow>
                    (case placement_new mem v w2 of
                       Inl e \<Rightarrow> Inl e
                     | Inr w3 \<Rightarrow>
                         Inr (\<lparr>get = mem, get_deleter = SmartDeleter this\<rparr>, w3)))))"

text \<open>\<^verbatim>\<open>void destruct(DerivedType* p) noexcept\<close>\<close>

definition destruct :: "token \<Rightarrow> pointer \<Rightarrow> 'v world \<Rightarrow> fault + 'v world" where
  "destruct this p w =
     (if p = Null then Inr w
      else (case destroy_at p w of
              Inl e \<Rightarrow> Inl e
            | Inr w1 \<Rightarrow> deallocate this p w1))"

text \<open>\<^verbatim>\<open>uint64_t available()\<close>\<close>

definition available :: "token \<Rightarrow> 'v world \<Rightarrow> fault + 64 word" where
  "available this w =
     (case pools w this of
        None \<Rightarrow> Inl NoObject
      | Some pool \<Rightarrow> Inr (mAvailable pool))"

section \<open>The deleter and the handle\<close>

text \<open>
  \<^verbatim>\<open>void SmartDeleter::operator()(B* ptr)\<close>: the destructor call and the deallocation are both
  inside the branch taken when \<^verbatim>\<open>mParentPool.lock()\<close> yields a pool.
\<close>

definition SmartDeleter_call :: "SmartDeleter \<Rightarrow> pointer \<Rightarrow> 'v world \<Rightarrow> fault + 'v world" where
  "SmartDeleter_call d ptr w =
     (case pools w (mParentPool d) of
        Some pool \<Rightarrow>
          (case destroy_at ptr w of
             Inl e \<Rightarrow> Inl e
           | Inr w1 \<Rightarrow> deallocate (mParentPool d) ptr w1)
      | None \<Rightarrow> Inr w)"

text \<open>
  The two members of \<^verbatim>\<open>std::unique_ptr\<close> the header relies on, as the C++ standard defines
  them: \<^verbatim>\<open>release()\<close> hands the address out and leaves null behind; the destructor (and
  \<^verbatim>\<open>reset()\<close>) calls the deleter only if the address is not null.
\<close>

definition unique_ptr_release :: "unique_ptr \<Rightarrow> pointer \<times> unique_ptr" where
  "unique_ptr_release p = (get p, p\<lparr>get := Null\<rparr>)"

definition unique_ptr_dtor :: "unique_ptr \<Rightarrow> 'v world \<Rightarrow> fault + 'v world" where
  "unique_ptr_dtor p w =
     (if get p = Null then Inr w else SmartDeleter_call (get_deleter p) (get p) w)"

text \<open>
  \<^verbatim>\<open>void destruct(std::unique_ptr<DerivedType, SmartDeleter<BaseType>> p) noexcept\<close>: the
  handle is taken by value, so its destructor runs when the function returns.
\<close>

definition destruct_unique_ptr :: "token \<Rightarrow> unique_ptr \<Rightarrow> 'v world \<Rightarrow> fault + 'v world" where
  "destruct_unique_ptr this p w =
     (case unique_ptr_release p of
        (t_ptr, p') \<Rightarrow>
          (case destruct this t_ptr w of
             Inl e \<Rightarrow> Inl e
           | Inr w1 \<Rightarrow> unique_ptr_dtor p' w1))"

text \<open>
  The caller's other manual path: \<^verbatim>\<open>auto a = h.release(); pool.destruct(a);\<close>, after which the
  emptied handle goes out of scope.
\<close>

definition destruct_released :: "token \<Rightarrow> unique_ptr \<Rightarrow> 'v world \<Rightarrow> fault + 'v world" where
  "destruct_released this h w =
     (case unique_ptr_release h of
        (a, h') \<Rightarrow>
          (case destruct this a w of
             Inl e \<Rightarrow> Inl e
           | Inr w1 \<Rightarrow> unique_ptr_dtor h' w1))"

section \<open>Sequential clients\<close>

text \<open>\<open>n\<close> calls of \<^verbatim>\<open>construct\<close> in a row, the handles kept in the order they were issued.\<close>

fun construct_all :: "token \<Rightarrow> 'v list \<Rightarrow> 'v world \<Rightarrow> fault + (unique_ptr list \<times> 'v world)" where
  "construct_all this [] w = Inr ([], w)"
| "construct_all this (v # vs) w =
     (case construct this v w of
        Inl e \<Rightarrow> Inl e
      | Inr (h, w1) \<Rightarrow>
          (case construct_all this vs w1 of
             Inl e \<Rightarrow> Inl e
           | Inr (hs, w2) \<Rightarrow> Inr (h # hs, w2)))"

text \<open>
  A single-threaded client that keeps the non-null handles it was given in a list and gives
  each of them back at most once, in one of the three ways the header offers:
  \<^verbatim>\<open>pool.destruct(std::move(h))\<close>, \<^verbatim>\<open>pool.destruct(h.release())\<close>, or letting \<^verbatim>\<open>h\<close> go out of
  scope.  A null handle returned by \<^verbatim>\<open>construct\<close> is dropped at once.  An index that names no
  held handle is skipped.
\<close>

datatype 'v operation =
    Construct 'v
  | Destruct_handle nat
  | Destruct_address nat
  | Drop_handle nat

fun without :: "nat \<Rightarrow> 'a list \<Rightarrow> 'a list" where
  "without k xs = take k xs @ drop (Suc k) xs"

fun step :: "token \<Rightarrow> 'v operation \<Rightarrow> unique_ptr list \<times> 'v world \<Rightarrow>
    fault + (unique_ptr list \<times> 'v world)" where
  "step this (Construct v) (hs, w) =
     (case construct this v w of
        Inl e \<Rightarrow> Inl e
      | Inr (h, w1) \<Rightarrow>
          if get h = Null
          then (case unique_ptr_dtor h w1 of Inl e \<Rightarrow> Inl e | Inr w2 \<Rightarrow> Inr (hs, w2))
          else Inr (hs @ [h], w1))"
| "step this (Destruct_handle k) (hs, w) =
     (if k < length hs
      then (case destruct_unique_ptr this (hs ! k) w of
              Inl e \<Rightarrow> Inl e
            | Inr w1 \<Rightarrow> Inr (without k hs, w1))
      else Inr (hs, w))"
| "step this (Destruct_address k) (hs, w) =
     (if k < length hs
      then (case destruct_released this (hs ! k) w of
              Inl e \<Rightarrow> Inl e
            | Inr w1 \<Rightarrow> Inr (without k hs, w1))
      else Inr (hs, w))"
| "step this (Drop_handle k) (hs, w) =
     (if k < length hs
      then (case unique_ptr_dtor (hs ! k) w of
              Inl e \<Rightarrow> Inl e
            | Inr w1 \<Rightarrow> Inr (without k hs, w1))
      else Inr (hs, w))"

fun run :: "token \<Rightarrow> 'v operation list \<Rightarrow> unique_ptr list \<times> 'v world \<Rightarrow>
    fault + (unique_ptr list \<times> 'v world)" where
  "run this [] s = Inr s"
| "run this (x # xs) s =
     (case step this x s of
        Inl e \<Rightarrow> Inl e
      | Inr s' \<Rightarrow> run this xs s')"

section \<open>The free list as a chain of blocks\<close>

text \<open>
  \<open>is_chain this blocks h js\<close>: following the links from the head \<open>h\<close> through the slab of
  pool \<open>this\<close> visits exactly the blocks \<open>js\<close>, in this order, and ends at null.
\<close>

fun is_chain :: "token \<Rightarrow> 'v MemoryBlock list \<Rightarrow> pointer \<Rightarrow> nat list \<Rightarrow> bool" where
  "is_chain this blocks h [] = (h = Null)"
| "is_chain this blocks h (j # js) =
     (h = Slot this j \<and> j < length blocks \<and>
      (case blocks ! j of mNext q \<Rightarrow> is_chain this blocks q js | mStorage _ \<Rightarrow> False))"

text \<open>
  The state of a pool of capacity \<open>K\<close> whose free list is \<open>fl\<close> while a client holds the
  handles \<open>hs\<close>: every block is on the free list or holds the value of exactly one handle.
\<close>

definition holds_value :: "token \<Rightarrow> 'v SmartMemoryPool \<Rightarrow> unique_ptr \<Rightarrow> bool" where
  "holds_value this p h =
     (get_deleter h = SmartDeleter this \<and>
      (\<exists>i v. get h = Slot this i \<and> i < length (mPool p) \<and> mPool p ! i = mStorage (Some v)))"

definition pool_inv :: "token \<Rightarrow> 64 word \<Rightarrow> 'v world \<Rightarrow> nat list \<Rightarrow> unique_ptr list \<Rightarrow> bool" where
  "pool_inv this K w fl hs =
     (\<exists>p. pools w this = Some p \<and> mCapacity p = K \<and>
        length (mPool p) = unat K \<and>
        is_chain this (mPool p) (mNextFree p) fl \<and> distinct fl \<and>
        length fl + length hs = unat K \<and>
        mAvailable p = K - word_of_nat (length hs) \<and>
        distinct (map get hs) \<and> list_all (holds_value this p) hs)"

section \<open>Example worlds\<close>

definition empty_world :: "nat world" where
  "empty_world = \<lparr>pools = Map.empty, next_token = 0, events = []\<rparr>"

text \<open>The world after \<^verbatim>\<open>SmartMemoryPool pool(1)\<close>: token 0, its one block free.\<close>

definition fresh_world :: "nat world" where
  "fresh_world =
     \<lparr>pools = [0 \<mapsto> \<lparr>mCapacity = 1, mPool = [mNext Null],
                      mNextFree = Slot 0 0, mAvailable = 1\<rparr>],
      next_token = 1,
      events = []\<rparr>"

text \<open>The world after \<^verbatim>\<open>SmartMemoryPool pool(2)\<close>: token 0, both blocks free.\<close>

definition two_world :: "nat world" where
  "two_world =
     \<lparr>pools = [0 \<mapsto> \<lparr>mCapacity = 2, mPool = [mNext (Slot 0 1), mNext Null],
                      mNextFree = Slot 0 0, mAvailable = 2\<rparr>],
      next_token = 1,
      events = []\<rparr>"

text \<open>\<open>fresh_world\<close> after \<^verbatim>\<open>pool.construct(5)\<close>: the block holds 5, the free list is empty.\<close>

definition exhausted_world :: "nat world" where
  "exhausted_world =
     \<lparr>pools = [0 \<mapsto> \<lparr>mCapacity = 1, mPool = [mStorage (Some 5)],
                      mNextFree = Null, mAvailable = 0\<rparr>],
      next_token = 1,
      events = [Popped (Slot 0 0), Decremented 0, Constructed (Slot 0 0) 5]\<rparr>"

text \<open>The same world after the destructor of the pool has run.\<close>

definition orphaned_world :: "nat world" where
  "orphaned_world =
     \<lparr>pools = Map.empty,
      next_token = 1,
      events = [Popped (Slot 0 0), Decremented 0, Constructed (Slot 0 0) 5]\<rparr>"

text \<open>A pool of three blocks, token 0, all three claimed and their values already destroyed.\<close>

definition claimed_world :: "nat world" where
  "claimed_world =
     \<lparr>pools = [0 \<mapsto> \<lparr>mCapacity = 3, mPool = [mStorage None, mStorage None, mStorage None],
                      mNextFree = Null, mAvailable = 0\<rparr>],
      next_token = 1,
      events = []\<rparr>"

text \<open>The handle that \<^verbatim>\<open>construct(5)\<close> returned for block 0 of pool 0.\<close>

definition first_handle :: unique_ptr where
  "first_handle = \<lparr>get = Slot 0 0, get_deleter = SmartDeleter 0\<rparr>"

section \<open>Closed forms of the loops\<close>

declare ctor_loop.simps [simp del]
declare allocate_loop.simps [simp del]
declare deallocate_loop.simps [simp del]

lemma allocate_Null:
  "pools w this = Some p \<Longrightarrow> mNextFree p = Null \<Longrightarrow> allocate this w = Inr (None, w)"
  by (simp add: allocate_def allocate_loop.simps)

lemma allocate_Slot:
  "pools w this = Some p \<Longrightarrow> mNextFree p = Slot t i \<Longrightarrow>
   allocate this w =
     (case load_mNext (Slot t i) w of
        Inl e \<Rightarrow> Inl e
      | Inr d \<Rightarrow> Inr (Some (Slot t i),
                 w\<lparr>pools := (pools w)(this \<mapsto> p\<lparr>mNextFree := d\<rparr>),
                   events := events w @ [Popped (Slot t i)]\<rparr>))"
  by (simp add: allocate_def allocate_loop.simps [of this "Slot t i"] compare_exchange_strong_def
           split: sum.splits)

lemma allocate_own:
  "pools w this = Some p \<Longrightarrow> mNextFree p = Slot this i \<Longrightarrow> i < length (mPool p) \<Longrightarrow>
   mPool p ! i = mNext q \<Longrightarrow>
   allocate this w =
     Inr (Some (Slot this i),
          w\<lparr>pools := (pools w)(this \<mapsto> p\<lparr>mNextFree := q\<rparr>),
            events := events w @ [Popped (Slot this i)]\<rparr>)"
  by (simp add: allocate_Slot load_mNext_def)

lemma deallocate_own:
  "pools w this = Some p \<Longrightarrow> i < length (mPool p) \<Longrightarrow>
   deallocate this (Slot this i) w =
     Inr (w\<lparr>pools := (pools w)(this \<mapsto>
              p\<lparr>mPool := (mPool p)[i := mNext (mNextFree p)],
                mNextFree := Slot this i,
                mAvailable := mAvailable p + 1\<rparr>),
            events := events w @ [Pushed (Slot this i), Incremented this]\<rparr>)"
  by (simp add: deallocate_def store_mNext_def deallocate_loop.simps [of this "Slot this i"]
        load_mNext_def compare_exchange_strong_def fetch_add_def)

lemma destroy_at_own:
  "pools w t = Some p \<Longrightarrow> i < length (mPool p) \<Longrightarrow> mPool p ! i = mStorage (Some v) \<Longrightarrow>
   destroy_at (Slot t i) w =
     Inr (w\<lparr>pools := (pools w)(t \<mapsto> p\<lparr>mPool := (mPool p)[i := mStorage None]\<rparr>),
            events := events w @ [Destroyed (Slot t i) v]\<rparr>)"
  by (simp add: destroy_at_def)

lemma destruct_own:
  "pools w this = Some p \<Longrightarrow> i < length (mPool p) \<Longrightarrow> mPool p ! i = mStorage (Some v) \<Longrightarrow>
   destruct this (Slot this i) w =
     Inr (w\<lparr>pools := (pools w)(this \<mapsto>
              p\<lparr>mPool := (mPool p)[i := mNext (mNextFree p)],
                mNextFree := Slot this i,
                mAvailable := mAvailable p + 1\<rparr>),
            events := events w @
              [Destroyed (Slot this i) v, Pushed (Slot this i), Incremented this]\<rparr>)"
  by (simp add: destruct_def destroy_at_own deallocate_own)

lemma unique_ptr_dtor_null: "get h = Null \<Longrightarrow> unique_ptr_dtor h w = Inr w"
  by (simp add: unique_ptr_dtor_def)

lemma destruct_unique_ptr_eq: "destruct_unique_ptr this h w = destruct this (get h) w"
  by (simp add: destruct_unique_ptr_def unique_ptr_release_def unique_ptr_dtor_def
           split: sum.splits)

lemma deleter_eq_destruct:
  "pools w this = Some p \<Longrightarrow> get_deleter h = SmartDeleter this \<Longrightarrow> get h \<noteq> Null \<Longrightarrow>
   unique_ptr_dtor h w = destruct this (get h) w"
  by (simp add: unique_ptr_dtor_def SmartDeleter_call_def destruct_def split: sum.splits)

lemma construct_exhausted:
  "pools w this = Some p \<Longrightarrow> mNextFree p = Null \<Longrightarrow>
   construct this v w = Inr (\<lparr>get = Null, get_deleter = SmartDeleter this\<rparr>, w)"
  by (simp add: construct_def allocate_Null)

lemma construct_null_cases:
  assumes "construct this v w = Inr (h, w')" "get h = Null"
  shows "w' = w \<and> (\<exists>p. pools w this = Some p \<and> mNextFree p = Null)"
proof (cases "pools w this")
  case None
  with assms show ?thesis by (simp add: construct_def allocate_def)
next
  case (Some p)
  show ?thesis
  proof (cases "mNextFree p")
    case Null
    with Some assms show ?thesis by (simp add: construct_exhausted)
  next
    case (Slot t i)
    with Some assms show ?thesis
      by (auto simp: construct_def allocate_Slot split: sum.splits)
  qed
qed

lemma construct_own:
  "pools w this = Some p \<Longrightarrow> mNextFree p = Slot this i \<Longrightarrow> i < length (mPool p) \<Longrightarrow>
   mPool p ! i = mNext q \<Longrightarrow>
   construct this v w =
     Inr (\<lparr>get = Slot this i, get_deleter = SmartDeleter this\<rparr>,
          w\<lparr>pools := (pools w)(this \<mapsto>
              p\<lparr>mPool := (mPool p)[i := mStorage (Some v)],
                mNextFree := q,
                mAvailable := mAvailable p - 1\<rparr>),
            events := events w @
              [Popped (Slot this i), Decremented this, Constructed (Slot this i) v]\<rparr>)"
  by (cases p) (simp add: construct_def allocate_own fetch_sub_def placement_new_def)


text \<open>
  The deleter has no null check of its own: invoked on a null address while its pool is alive
  it would call a destructor through null.  A \<^verbatim>\<open>std::unique_ptr\<close> never invokes it so.
\<close>

lemma deleter_null_faults:
  "pools w (mParentPool d) = Some p \<Longrightarrow> SmartDeleter_call d Null w = Inl NullDereference"
  by (simp add: SmartDeleter_call_def destroy_at_def)

lemma destruct_released_eq: "destruct_released this h w = destruct this (get h) w"
  by (simp add: destruct_released_def unique_ptr_release_def unique_ptr_dtor_def
           split: sum.splits)

lemma construct_nonnull_cases:
  assumes "construct this v w = Inr (h, w')" "get h \<noteq> Null"
  shows "\<exists>p p'. pools w this = Some p \<and> mNextFree p = get h \<and>
           pools w' this = Some p' \<and> mAvailable p' = mAvailable p - 1 \<and>
           get_deleter h = SmartDeleter this \<and>
           load_block (get h) w' = Inr (mStorage (Some v)) \<and>
           events w' = events w @ [Popped (get h), Decremented this, Constructed (get h) v]"
proof (cases "pools w this")
  case None
  with assms show ?thesis by (simp add: construct_def allocate_def)
next
  case (Some p)
  show ?thesis
  proof (cases "mNextFree p")
    case Null
    with Some assms show ?thesis by (auto simp: construct_exhausted)
  next
    case (Slot t i)
    with Some assms show ?thesis
      by (auto simp: construct_def allocate_Slot fetch_sub_def placement_new_def
               split: sum.splits option.splits if_splits)
  qed
qed

section \<open>The constructor\<close>

text \<open>
  The comparison \<^verbatim>\<open>i < mCapacity\<close> converts the counter to \<^verbatim>\<open>uint64_t\<close>; for a counter between
  0 and \<^verbatim>\<open>INT_MAX\<close> the conversion keeps the value.
\<close>

lemma counter_less_capacity:
  "0 \<le> i \<Longrightarrow> i \<le> 2147483647 \<Longrightarrow> ((word_of_int i :: 64 word) < cap) = (nat i < unat cap)"
proof -
  assume a: "0 \<le> i" "i \<le> 2147483647"
  then have "take_bit 64 i = i"
    by (simp add: take_bit_int_eq_self)
  then have "uint (word_of_int i :: 64 word) = i"
    by (simp add: uint_word_of_int_eq)
  then have "unat (word_of_int i :: 64 word) = nat i"
    by (simp add: unat_eq_nat_uint)
  then show ?thesis
    by (simp add: word_less_nat_alt)
qed

lemma ctor_loop_result:
  "ctor_loop this cap i blocks = Inr bs \<Longrightarrow> 0 < i \<Longrightarrow> i \<le> 2147483647 \<Longrightarrow>
   length bs = length blocks \<and>
   (\<forall>j<length blocks. bs ! j =
      (if nat i \<le> j + 1 \<and> j + 1 < unat cap then mNext (Slot this (j + 1)) else blocks ! j))"
proof (induction this cap i blocks rule: ctor_loop.induct)
  case (1 this cap i blocks)
  show ?case
  proof (cases "nat i < unat cap")
    case False
    with "1.prems" have "bs = blocks"
      by (simp add: ctor_loop.simps [of this cap i] counter_less_capacity)
    with False show ?thesis by auto
  next
    case True
    let ?blocks' = "blocks[nat (i - 1) := mNext (Slot this (nat i))]"
    from True "1.prems" have run: "nat i < length blocks" "i < 2147483647"
      "ctor_loop this cap (i + 1) ?blocks' = Inr bs"
      by (auto simp: ctor_loop.simps [of this cap i] counter_less_capacity Let_def
               split: if_splits)
    from True "1.prems" run have
      "length bs = length ?blocks' \<and>
       (\<forall>j<length ?blocks'. bs ! j =
          (if nat (i + 1) \<le> j + 1 \<and> j + 1 < unat cap then mNext (Slot this (j + 1))
           else ?blocks' ! j))"
      by (intro "1.IH") (auto simp: counter_less_capacity)
    with True "1.prems" show ?thesis
      by (auto simp: nth_list_update nat_diff_distrib' nat_add_distrib)
  qed
qed

lemma ctor_loop_succeeds:
  "0 < i \<Longrightarrow> i \<le> 2147483647 \<Longrightarrow> length blocks = unat cap \<Longrightarrow> unat cap \<le> 2147483647 \<Longrightarrow>
   \<exists>bs. ctor_loop this cap i blocks = Inr bs"
proof (induction this cap i blocks rule: ctor_loop.induct)
  case (1 this cap i blocks)
  show ?case
  proof (cases "nat i < unat cap")
    case False
    with "1.prems" show ?thesis
      by (simp add: ctor_loop.simps [of this cap i] counter_less_capacity)
  next
    case True
    let ?blocks' = "blocks[nat (i - 1) := mNext (Slot this (nat i))]"
    from True "1.prems" have "\<exists>bs. ctor_loop this cap (i + 1) ?blocks' = Inr bs"
      by (intro "1.IH") (auto simp: counter_less_capacity)
    with True "1.prems" show ?thesis
      by (auto simp: ctor_loop.simps [of this cap i] counter_less_capacity Let_def)
  qed
qed

lemma ctor_loop_overflows:
  "0 < i \<Longrightarrow> i \<le> 2147483647 \<Longrightarrow> length blocks = unat cap \<Longrightarrow> 2147483647 < unat cap \<Longrightarrow>
   ctor_loop this cap i blocks = Inl SignedOverflow"
proof (induction this cap i blocks rule: ctor_loop.induct)
  case (1 this cap i blocks)
  let ?blocks' = "blocks[nat (i - 1) := mNext (Slot this (nat i))]"
  from "1.prems" have less: "nat i < unat cap" by simp
  with "1.prems" have cond: "(word_of_int i :: 64 word) < cap"
    by (simp add: counter_less_capacity)
  show ?case
  proof (cases "2147483647 \<le> i")
    case True
    with cond less "1.prems"(1,3) show ?thesis
      by (subst ctor_loop.simps) (simp add: Let_def)
  next
    case False
    with cond less "1.prems" have "ctor_loop this cap (i + 1) ?blocks' = Inl SignedOverflow"
      by (intro "1.IH") auto
    with False cond less "1.prems"(1,3) show ?thesis
      by (subst ctor_loop.simps) (simp add: Let_def)
  qed
qed

text \<open>The constructor returns a pool exactly for the capacities up to \<^verbatim>\<open>INT_MAX\<close>.\<close>

lemma ctor_succeeds_iff:
  fixes w0 :: "'v world"
  shows "(\<exists>r. SmartMemoryPool_ctor K w0 = Inr r) = (unat K \<le> 2147483647)"
proof (cases "unat K \<le> 2147483647")
  case True
  let ?init = "replicate (unat K) (mNext Null) :: 'v MemoryBlock list"
  from True obtain bs where "ctor_loop (next_token w0) K 1 ?init = Inr bs"
    using ctor_loop_succeeds [of 1 ?init K "next_token w0"] by auto
  with True show ?thesis by (simp add: SmartMemoryPool_ctor_def Let_def)
next
  case False
  let ?init = "replicate (unat K) (mNext Null) :: 'v MemoryBlock list"
  from False have "ctor_loop (next_token w0) K 1 ?init = Inl SignedOverflow"
    by (intro ctor_loop_overflows) auto
  with False show ?thesis by (simp add: SmartMemoryPool_ctor_def Let_def)
qed

text \<open>Beyond \<^verbatim>\<open>INT_MAX\<close> the increment of the counter overflows before the loop is done.\<close>

lemma ctor_overflows:
  fixes w0 :: "'v world"
  assumes "2147483647 < unat K"
  shows "SmartMemoryPool_ctor K w0 = Inl SignedOverflow"
proof -
  let ?init = "replicate (unat K) (mNext Null) :: 'v MemoryBlock list"
  from assms have "ctor_loop (next_token w0) K 1 ?init = Inl SignedOverflow"
    by (intro ctor_loop_overflows) auto
  then show ?thesis by (simp add: SmartMemoryPool_ctor_def Let_def)
qed

lemma is_chain_upt:
  assumes "\<forall>j<n. bs ! j = (if j + 1 < n then mNext (Slot this (j + 1)) else mNext Null)"
    and "length bs = n"
  shows "k \<le> n \<Longrightarrow> is_chain this bs (if k < n then Slot this k else Null) [k..<n]"
proof (induction "n - k" arbitrary: k)
  case 0
  then show ?case by simp
next
  case (Suc d)
  then have k: "k < n" and step: "is_chain this bs (if Suc k < n then Slot this (Suc k) else Null) [Suc k..<n]"
    by auto
  from k assms have "bs ! k = mNext (if Suc k < n then Slot this (Suc k) else Null)"
    by simp
  with k step assms(2) show ?case
    by (simp add: upt_conv_Cons)
qed

lemma ctor_establishes_inv:
  assumes "SmartMemoryPool_ctor K w0 = Inr (this, w)" "K \<noteq> 0"
  shows "pool_inv this K w [0..<unat K] []"
proof -
  let ?init = "replicate (unat K) (mNext Null) :: 'a MemoryBlock list"
  from assms(1) obtain bs where loop: "ctor_loop (next_token w0) K 1 ?init = Inr bs"
    and tok: "this = next_token w0"
    and w: "w = w0\<lparr>pools := (pools w0)(this \<mapsto>
                    \<lparr>mCapacity = K, mPool = bs, mNextFree = Slot this 0, mAvailable = K\<rparr>),
                 next_token := this + 1\<rparr>"
    by (auto simp: SmartMemoryPool_ctor_def Let_def split: sum.splits)
  from ctor_loop_result [OF loop] have len: "length bs = unat K"
    and nth: "\<forall>j<unat K. bs ! j =
        (if j + 1 < unat K then mNext (Slot this (j + 1)) else mNext Null)"
    by (auto simp: tok)
  from assms(2) have pos: "0 < unat K"
    by (simp add: unat_gt_0)
  from is_chain_upt [OF nth len, of 0] pos
  have "is_chain this bs (Slot this 0) [0..<unat K]" by simp
  with len show ?thesis
    by (simp add: pool_inv_def w)
qed

section \<open>The invariant is kept\<close>

lemma is_chain_member:
  "is_chain this bl h fl \<Longrightarrow> j \<in> set fl \<Longrightarrow> j < length bl \<and> (\<exists>q. bl ! j = mNext q)"
  by (induction fl arbitrary: h) (auto split: MemoryBlock.splits)

lemma is_chain_update:
  "is_chain this bl h fl \<Longrightarrow> i \<notin> set fl \<Longrightarrow> is_chain this (bl[i := b]) h fl"
  by (induction fl arbitrary: h) (auto split: MemoryBlock.splits)

lemma holds_value_update:
  "holds_value this p h \<Longrightarrow> get h \<noteq> Slot this i \<Longrightarrow> mPool p' = (mPool p)[i := b] \<Longrightarrow>
   holds_value this p' h"
  by (auto simp: holds_value_def)

lemma holds_value_not_free:
  "holds_value this p h \<Longrightarrow> is_chain this (mPool p) q fl \<Longrightarrow> get h = Slot this i \<Longrightarrow> i \<notin> set fl"
  by (auto simp: holds_value_def dest: is_chain_member)

lemma construct_keeps_inv:
  assumes inv: "pool_inv this K w (j # js) hs"
  shows "\<exists>h w'. construct this v w = Inr (h, w') \<and> get h = Slot this j \<and>
           pool_inv this K w' js (hs @ [h])"
proof -
  from inv obtain p where p0: "pools w this = Some p"
      "is_chain this (mPool p) (mNextFree p) (j # js)"
    by (auto simp: pool_inv_def)
  from p0(2) obtain q where q: "mPool p ! j = mNext q" "is_chain this (mPool p) q js"
    by (cases "mPool p ! j") auto
  from inv p0 q have p: "pools w this = Some p" "mCapacity p = K"
      "length (mPool p) = unat K" "mNextFree p = Slot this j" "j < length (mPool p)"
      "mPool p ! j = mNext q" "is_chain this (mPool p) q js" "j \<notin> set js" "distinct js"
      "Suc (length js + length hs) = unat K" "mAvailable p = K - word_of_nat (length hs)"
      "distinct (map get hs)" "list_all (holds_value this p) hs"
    by (auto simp: pool_inv_def)
  let ?h = "\<lparr>get = Slot this j, get_deleter = SmartDeleter this\<rparr>"
  let ?p = "p\<lparr>mPool := (mPool p)[j := mStorage (Some v)], mNextFree := q,
               mAvailable := mAvailable p - 1\<rparr>"
  let ?w = "w\<lparr>pools := (pools w)(this \<mapsto> ?p),
              events := events w @
                [Popped (Slot this j), Decremented this, Constructed (Slot this j) v]\<rparr>"
  have c: "construct this v w = Inr (?h, ?w)"
    using p by (simp add: construct_own)
  have fresh: "Slot this j \<notin> get ` set hs"
  proof
    assume "Slot this j \<in> get ` set hs"
    then obtain h where "h \<in> set hs" "get h = Slot this j" by auto
    with p(13) have "holds_value this p h" by (simp add: list_all_iff)
    with \<open>get h = Slot this j\<close> p(6) show False
      by (auto simp: holds_value_def)
  qed
  have old: "list_all (holds_value this ?p) hs"
    unfolding list_all_iff
  proof
    fix h assume h: "h \<in> set hs"
    with p(13) have "holds_value this p h" by (simp add: list_all_iff)
    moreover from h fresh have "get h \<noteq> Slot this j" by force
    ultimately show "holds_value this ?p h"
      by (rule holds_value_update [where i = j and b = "mStorage (Some v)"]) simp
  qed
  have new: "holds_value this ?p ?h"
    using p(5) by (simp add: holds_value_def)
  have chain: "is_chain this (mPool ?p) (mNextFree ?p) js"
    using p(7,8) by (simp add: is_chain_update)
  have "pool_inv this K ?w js (hs @ [?h])"
    using p old new chain fresh by (simp add: pool_inv_def)
  with c show ?thesis by auto
qed

lemma construct_on_empty_inv:
  "pool_inv this K w [] hs \<Longrightarrow>
   construct this v w = Inr (\<lparr>get = Null, get_deleter = SmartDeleter this\<rparr>, w)"
  by (auto simp: pool_inv_def construct_exhausted)

lemma without_props:
  assumes "k < length xs" "distinct (map f xs)"
  shows "length (without k xs) = length xs - 1"
    and "distinct (map f (without k xs))"
    and "f (xs ! k) \<notin> f ` set (without k xs)"
    and "set (without k xs) \<subseteq> set xs"
proof -
  from assms(1) have xs: "xs = take k xs @ xs ! k # drop (Suc k) xs"
    by (rule id_take_nth_drop)
  from assms(1) show "length (without k xs) = length xs - 1" by auto
  from assms(2) have "distinct (map f (take k xs @ xs ! k # drop (Suc k) xs))"
    using xs by simp
  then show "distinct (map f (without k xs))" "f (xs ! k) \<notin> f ` set (without k xs)"
    by auto
  show "set (without k xs) \<subseteq> set xs"
    by (auto dest: in_set_takeD in_set_dropD)
qed

lemma release_keeps_inv:
  assumes inv: "pool_inv this K w fl hs" and k: "k < length hs"
  shows "\<exists>i w'. get (hs ! k) = Slot this i \<and> unique_ptr_dtor (hs ! k) w = Inr w' \<and>
           pool_inv this K w' (i # fl) (without k hs)"
proof -
  from inv obtain p where p: "pools w this = Some p" "mCapacity p = K"
      "length (mPool p) = unat K" "is_chain this (mPool p) (mNextFree p) fl" "distinct fl"
      "length fl + length hs = unat K" "mAvailable p = K - word_of_nat (length hs)"
      "distinct (map get hs)" "list_all (holds_value this p) hs"
    by (auto simp: pool_inv_def)
  from k p(9) have hv: "holds_value this p (hs ! k)"
    by (simp add: list_all_length)
  then obtain i v where h: "get_deleter (hs ! k) = SmartDeleter this" "get (hs ! k) = Slot this i"
      "i < length (mPool p)" "mPool p ! i = mStorage (Some v)"
    by (auto simp: holds_value_def)
  let ?p = "p\<lparr>mPool := (mPool p)[i := mNext (mNextFree p)], mNextFree := Slot this i,
               mAvailable := mAvailable p + 1\<rparr>"
  let ?w = "w\<lparr>pools := (pools w)(this \<mapsto> ?p),
              events := events w @
                [Destroyed (Slot this i) v, Pushed (Slot this i), Incremented this]\<rparr>"
  have d: "unique_ptr_dtor (hs ! k) w = Inr ?w"
    using p(1) h by (simp add: deleter_eq_destruct destruct_own)
  have notfree: "i \<notin> set fl"
    using hv p(4) h(2) by (rule holds_value_not_free)
  note wo = without_props [OF k p(8)]
  have others: "list_all (holds_value this ?p) (without k hs)"
    unfolding list_all_iff
  proof
    fix h' assume h': "h' \<in> set (without k hs)"
    with wo(4) p(9) have "holds_value this p h'" by (auto simp: list_all_iff)
    moreover from h' wo(3) h(2) have "get h' \<noteq> Slot this i" by force
    ultimately show "holds_value this ?p h'"
      by (rule holds_value_update [where i = i and b = "mNext (mNextFree p)"]) simp
  qed
  have chain: "is_chain this ((mPool p)[i := mNext (mNextFree p)]) (mNextFree p) fl"
    using p(4) notfree by (rule is_chain_update)
  have count: "mAvailable ?p = K - word_of_nat (length (without k hs))"
  proof -
    from k have "length hs = Suc (length (without k hs))" by auto
    then have "(word_of_nat (length hs) :: 64 word) = word_of_nat (length (without k hs)) + 1"
      by (simp only: of_nat_Suc) simp
    with p(7) show ?thesis by simp
  qed
  have "pool_inv this K ?w (i # fl) (without k hs)"
    unfolding pool_inv_def
    using p others chain count notfree wo(1,2) k h(3)
    by (intro exI [of _ ?p]) (simp del: without.simps)
  with d h(2) show ?thesis by auto
qed

lemma release_paths_agree:
  assumes "pool_inv this K w fl hs" "k < length hs"
  shows "destruct_unique_ptr this (hs ! k) w = unique_ptr_dtor (hs ! k) w"
    and "destruct_released this (hs ! k) w = unique_ptr_dtor (hs ! k) w"
proof -
  from assms obtain p where "pools w this = Some p" "holds_value this p (hs ! k)"
    by (auto simp: pool_inv_def list_all_length)
  then have "unique_ptr_dtor (hs ! k) w = destruct this (get (hs ! k)) w"
    by (intro deleter_eq_destruct) (auto simp: holds_value_def)
  then show "destruct_unique_ptr this (hs ! k) w = unique_ptr_dtor (hs ! k) w"
    and "destruct_released this (hs ! k) w = unique_ptr_dtor (hs ! k) w"
    by (simp_all add: destruct_unique_ptr_eq destruct_released_eq)
qed

lemma step_keeps_inv:
  assumes inv: "pool_inv this K w fl hs"
  shows "\<exists>hs' w' fl'. step this x (hs, w) = Inr (hs', w') \<and> pool_inv this K w' fl' hs'"
proof (cases x)
  case (Construct v)
  show ?thesis
  proof (cases fl)
    case Nil
    with inv have "construct this v w = Inr (\<lparr>get = Null, get_deleter = SmartDeleter this\<rparr>, w)"
      by (simp add: construct_on_empty_inv)
    with Construct inv show ?thesis
      by (auto simp: unique_ptr_dtor_null)
  next
    case (Cons j js)
    with inv obtain h w' where "construct this v w = Inr (h, w')" "get h = Slot this j"
        "pool_inv this K w' js (hs @ [h])"
      using construct_keeps_inv [of this K w j js hs v] by auto
    with Construct show ?thesis by auto
  qed
next
  case (Destruct_handle k)
  show ?thesis
  proof (cases "k < length hs")
    case True
    from release_keeps_inv [OF inv True] release_paths_agree(1) [OF inv True] Destruct_handle True
    show ?thesis by (auto simp del: without.simps)
  next
    case False
    with Destruct_handle inv show ?thesis by auto
  qed
next
  case (Destruct_address k)
  show ?thesis
  proof (cases "k < length hs")
    case True
    from release_keeps_inv [OF inv True] release_paths_agree(2) [OF inv True] Destruct_address True
    show ?thesis by (auto simp del: without.simps)
  next
    case False
    with Destruct_address inv show ?thesis by auto
  qed
next
  case (Drop_handle k)
  show ?thesis
  proof (cases "k < length hs")
    case True
    from release_keeps_inv [OF inv True] Drop_handle True
    show ?thesis by (auto simp del: without.simps)
  next
    case False
    with Drop_handle inv show ?thesis by auto
  qed
qed

lemma run_keeps_inv:
  "pool_inv this K w fl hs \<Longrightarrow>
   \<exists>hs' w' fl'. run this ops (hs, w) = Inr (hs', w') \<and> pool_inv this K w' fl' hs'"
proof (induction ops arbitrary: w fl hs)
  case Nil
  then show ?case by auto
next
  case (Cons x ops)
  from step_keeps_inv [OF Cons.prems, of x] obtain hs1 w1 fl1
    where s: "step this x (hs, w) = Inr (hs1, w1)" and i: "pool_inv this K w1 fl1 hs1"
    by blast
  from Cons.IH [OF i] s show ?case by simp
qed

lemma counter_as_nat:
  fixes K :: "64 word"
  assumes "n \<le> unat K"
  shows "unat (K - word_of_nat n) = unat K - n"
proof -
  have "unat K < 2 ^ 64"
    using unsigned_less [of K, where 'a = nat] by simp
  with assms have n: "unat (word_of_nat n :: 64 word) = n"
    by (simp add: unat_of_nat)
  with assms have "(word_of_nat n :: 64 word) \<le> K"
    by (simp add: word_le_nat_alt)
  then show ?thesis
    by (simp add: unat_sub n)
qed

lemma inv_available:
  "pool_inv this K w fl hs \<Longrightarrow>
   available this w = Inr (K - word_of_nat (length hs)) \<and> length hs \<le> unat K"
  by (auto simp: pool_inv_def available_def)

lemma construct_all_keeps_inv:
  "pool_inv this K w fl hs \<Longrightarrow> length vs \<le> length fl \<Longrightarrow>
   \<exists>hs' w'. construct_all this vs w = Inr (hs', w') \<and>
     map get hs' = map (Slot this) (take (length vs) fl) \<and>
     pool_inv this K w' (drop (length vs) fl) (hs @ hs')"
proof (induction vs arbitrary: w fl hs)
  case Nil
  then show ?case by simp
next
  case (Cons v vs)
  then obtain j js where fl: "fl = j # js" by (cases fl) auto
  with Cons.prems obtain h w1 where c: "construct this v w = Inr (h, w1)" "get h = Slot this j"
      "pool_inv this K w1 js (hs @ [h])"
    using construct_keeps_inv [of this K w j js hs v] by auto
  from Cons.prems fl have "length vs \<le> length js" by simp
  from Cons.IH [OF c(3) this] c(1,2) fl show ?case by auto
qed

lemma step_on_empty_slab:
  assumes "pools w this = Some p" "mPool p = []" "mNextFree p = Slot this 0"
    and "step this x ([], w) = Inr (hs, w')"
  shows "hs = [] \<and> w' = w"
proof (cases x)
  case (Construct v)
  from assms(1-3) have "construct this v w = Inl OutOfBounds"
    by (simp add: construct_def allocate_Slot load_mNext_def)
  with Construct assms(4) show ?thesis by simp
qed (use assms(4) in auto)

lemma run_on_empty_slab:
  assumes "pools w this = Some p" "mPool p = []" "mNextFree p = Slot this 0"
  shows "run this ops ([], w) = Inr (hs, w') \<Longrightarrow> hs = [] \<and> w' = w"
proof (induction ops)
  case Nil
  then show ?case by simp
next
  case (Cons x ops)
  then obtain hs1 w1 where s: "step this x ([], w) = Inr (hs1, w1)"
    and r: "run this ops (hs1, w1) = Inr (hs, w')"
    by (auto split: sum.splits)
  from step_on_empty_slab [OF assms s] r Cons.IH show ?case by simp
qed

lemma ctor_zero:
  assumes "SmartMemoryPool_ctor 0 w0 = Inr (this, w)"
  shows "\<exists>p. pools w this = Some p \<and> mPool p = [] \<and> mNextFree p = Slot this 0 \<and>
           mAvailable p = 0"
  using assms by (auto simp: SmartMemoryPool_ctor_def Let_def ctor_loop.simps [of _ 0 1])

section \<open>The example worlds arise from the code\<close>

lemma empty_world_ctor: "SmartMemoryPool_ctor 1 empty_world = Inr (0, fresh_world)"
proof -
  have "ctor_loop 0 1 1 [mNext Null :: nat MemoryBlock] = Inr [mNext Null]"
    by (simp add: ctor_loop.simps)
  then show ?thesis
    by (simp add: SmartMemoryPool_ctor_def empty_world_def fresh_world_def)
qed

lemma fresh_world_construct: "construct 0 5 fresh_world = Inr (first_handle, exhausted_world)"
  by (simp add: construct_own [where p = "the (pools fresh_world 0)" and i = 0 and q = Null]
        fresh_world_def exhausted_world_def first_handle_def)

lemma exhausted_world_dtor: "SmartMemoryPool_dtor 0 exhausted_world = Inr orphaned_world"
  by (simp add: SmartMemoryPool_dtor_def exhausted_world_def orphaned_world_def)

lemma two_ctor: "SmartMemoryPool_ctor 2 empty_world = Inr (0, two_world)"
proof -
  have "unat (2 :: 64 word) = Suc (Suc 0)"
    by simp
  then have "replicate (unat (2 :: 64 word)) (mNext Null :: nat MemoryBlock)
      = [mNext Null, mNext Null]"
    by (simp only: replicate.simps)
  moreover have "ctor_loop 0 2 1 [mNext Null, mNext Null :: nat MemoryBlock]
      = Inr [mNext (Slot 0 1), mNext Null]"
    by (simp add: ctor_loop.simps)
  ultimately show ?thesis
    by (simp add: SmartMemoryPool_ctor_def empty_world_def two_world_def)
qed

text \<open>
  The definitions that evaluate an operation on a concrete world.
\<close>

lemmas eval_defs = construct_def allocate_def allocate_loop.simps load_mNext_def
  compare_exchange_strong_def fetch_sub_def placement_new_def unique_ptr_dtor_def
  SmartDeleter_call_def destroy_at_def deallocate_def store_mNext_def deallocate_loop.simps
  fetch_add_def destruct_unique_ptr_def destruct_released_def destruct_def
  unique_ptr_release_def available_def

section \<open>The deleter\<close>

text \<open>
  C1 fails as stated.  A handle from \<^verbatim>\<open>construct\<close> outlives its pool: capacity 1,
  \<^verbatim>\<open>construct(5)\<close>, then the destructor of the pool.  Invoking the deleter of the handle
  afterwards returns at once: the lock of the weak reference fails, and the destructor of the
  value 5 in block 0 does not run.
\<close>

theorem deleter_after_pool_destruction_skips_destructor:
  "SmartMemoryPool_ctor 1 empty_world = Inr (0, fresh_world) \<and>
   construct 0 5 fresh_world = Inr (first_handle, exhausted_world) \<and>
   SmartMemoryPool_dtor 0 exhausted_world = Inr orphaned_world \<and>
   get first_handle \<noteq> Null \<and>
   SmartDeleter_call (get_deleter first_handle) (get first_handle) orphaned_world
     = Inr orphaned_world \<and>
   Destroyed (Slot 0 0) 5 \<notin> set (events orphaned_world)"
proof -
  have "SmartDeleter_call (get_deleter first_handle) (get first_handle) orphaned_world
     = Inr orphaned_world"
    by (simp add: SmartDeleter_call_def first_handle_def orphaned_world_def)
  with empty_world_ctor fresh_world_construct exhausted_world_dtor show ?thesis
    by (simp add: first_handle_def orphaned_world_def)
qed

text \<open>
  C1, as the code has it: when the pool of the deleter is gone, invoking the deleter changes
  nothing (no destructor of the value, no return of the slot); when the pool is alive and the
  address is a block of its slab holding a live value, the deleter first runs the destructor of
  that value, then pushes the block onto the free list and increments the counter.
\<close>

theorem deleter_destroys_and_releases_only_while_pool_alive:
  "(pools w (mParentPool d) = None \<longrightarrow> SmartDeleter_call d ptr w = Inr w) \<and>
   (pools w (mParentPool d) = Some p \<and> ptr = Slot (mParentPool d) i \<and>
    i < length (mPool p) \<and> mPool p ! i = mStorage (Some v) \<longrightarrow>
    SmartDeleter_call d ptr w =
      Inr (w\<lparr>pools := (pools w)(mParentPool d \<mapsto>
               p\<lparr>mPool := (mPool p)[i := mNext (mNextFree p)],
                 mNextFree := ptr,
                 mAvailable := mAvailable p + 1\<rparr>),
             events := events w @ [Destroyed ptr v, Pushed ptr, Incremented (mParentPool d)]\<rparr>))"
  by (simp add: SmartDeleter_call_def destroy_at_own deallocate_own)

theorem deleter_destroys_and_releases_only_while_pool_alive_witness:
  "SmartDeleter_call (SmartDeleter 0) (Slot 0 0) orphaned_world = Inr orphaned_world \<and>
   map_sum id events (SmartDeleter_call (SmartDeleter 0) (Slot 0 0) exhausted_world) =
     Inr [Popped (Slot 0 0), Decremented 0, Constructed (Slot 0 0) 5,
          Destroyed (Slot 0 0) 5, Pushed (Slot 0 0), Incremented 0]"
  using deleter_destroys_and_releases_only_while_pool_alive
          [where w = orphaned_world and d = "SmartDeleter 0" and ptr = "Slot 0 0"]
        deleter_destroys_and_releases_only_while_pool_alive
          [where w = exhausted_world and d = "SmartDeleter 0" and ptr = "Slot 0 0"
             and p = "the (pools exhausted_world 0)" and i = 0 and v = 5]
  by (simp add: orphaned_world_def exhausted_world_def)

section \<open>Manual release and release through the handle\<close>

text \<open>
  C2: on a live pool, for a non-null handle whose deleter is bound to the pool,
  \<^verbatim>\<open>pool.destruct(std::move(h))\<close>, \<^verbatim>\<open>pool.destruct(h.release())\<close> and the handle's own deleter
  firing give the same result, fault or world.  When the handle's address is a block of the
  slab holding a live value, that world is: the value destroyed, the block pushed onto the free
  list, the counter incremented.
\<close>

theorem manual_destruct_equals_handle_release:
  "pools w this = Some p \<Longrightarrow> get_deleter h = SmartDeleter this \<Longrightarrow> get h \<noteq> Null \<Longrightarrow>
   destruct_unique_ptr this h w = unique_ptr_dtor h w \<and>
   destruct_released this h w = unique_ptr_dtor h w \<and>
   (get h = Slot this i \<and> i < length (mPool p) \<and> mPool p ! i = mStorage (Some v) \<longrightarrow>
      unique_ptr_dtor h w =
        Inr (w\<lparr>pools := (pools w)(this \<mapsto>
                 p\<lparr>mPool := (mPool p)[i := mNext (mNextFree p)],
                   mNextFree := Slot this i,
                   mAvailable := mAvailable p + 1\<rparr>),
               events := events w @
                 [Destroyed (Slot this i) v, Pushed (Slot this i), Incremented this]\<rparr>))"
  by (simp add: destruct_unique_ptr_eq destruct_released_eq deleter_eq_destruct destruct_own)

theorem manual_destruct_equals_handle_release_witness:
  "construct 0 5 fresh_world = Inr (first_handle, exhausted_world) \<and>
   destruct_unique_ptr 0 first_handle exhausted_world = unique_ptr_dtor first_handle exhausted_world \<and>
   destruct_released 0 first_handle exhausted_world = unique_ptr_dtor first_handle exhausted_world \<and>
   map_sum id events (unique_ptr_dtor first_handle exhausted_world) =
     Inr [Popped (Slot 0 0), Decremented 0, Constructed (Slot 0 0) 5,
          Destroyed (Slot 0 0) 5, Pushed (Slot 0 0), Incremented 0] \<and>
   map_sum id (\<lambda>w. pools w 0) (unique_ptr_dtor first_handle exhausted_world) =
     Inr (Some \<lparr>mCapacity = 1, mPool = [mNext Null], mNextFree = Slot 0 0, mAvailable = 1\<rparr>)"
  using manual_destruct_equals_handle_release
          [where this = 0 and w = exhausted_world and h = first_handle
             and p = "the (pools exhausted_world 0)" and i = 0 and v = 5]
        fresh_world_construct
  by (simp add: exhausted_world_def first_handle_def)

text \<open>
  C10: \<^verbatim>\<open>destruct(unique_ptr)\<close> takes the address out of the handle first, so the handle it
  destroys on return is null and its deleter is not invoked: for a handle on a block with a
  live value, the value's destructor runs once and the block is pushed once.
\<close>

theorem destruct_unique_ptr_destroys_and_releases_exactly_once:
  fixes w :: "'v world"
  shows "pools w this = Some p \<Longrightarrow> get h = Slot this i \<Longrightarrow> i < length (mPool p) \<Longrightarrow>
   mPool p ! i = mStorage (Some v) \<Longrightarrow>
   get (snd (unique_ptr_release h)) = Null \<and>
   (\<forall>w1 :: 'v world. unique_ptr_dtor (snd (unique_ptr_release h)) w1 = Inr w1) \<and>
   destruct_unique_ptr this h w =
     Inr (w\<lparr>pools := (pools w)(this \<mapsto>
              p\<lparr>mPool := (mPool p)[i := mNext (mNextFree p)],
                mNextFree := Slot this i,
                mAvailable := mAvailable p + 1\<rparr>),
            events := events w @
              [Destroyed (Slot this i) v, Pushed (Slot this i), Incremented this]\<rparr>)"
  by (simp add: unique_ptr_release_def unique_ptr_dtor_null destruct_unique_ptr_eq destruct_own)

theorem destruct_unique_ptr_destroys_and_releases_exactly_once_witness:
  "get (snd (unique_ptr_release first_handle)) = Null \<and>
   map_sum id events (destruct_unique_ptr 0 first_handle exhausted_world) =
     Inr [Popped (Slot 0 0), Decremented 0, Constructed (Slot 0 0) 5,
          Destroyed (Slot 0 0) 5, Pushed (Slot 0 0), Incremented 0] \<and>
   map_sum id (\<lambda>w. map_option mPool (pools w 0))
     (destruct_unique_ptr 0 first_handle exhausted_world) = Inr (Some [mNext Null]) \<and>
   map_sum id (\<lambda>w. map_option mNextFree (pools w 0))
     (destruct_unique_ptr 0 first_handle exhausted_world) = Inr (Some (Slot 0 0)) \<and>
   map_sum id (\<lambda>w. map_option mAvailable (pools w 0))
     (destruct_unique_ptr 0 first_handle exhausted_world) = Inr (Some 1)"
  using destruct_unique_ptr_destroys_and_releases_exactly_once
          [where this = 0 and w = exhausted_world and h = first_handle
             and p = "the (pools exhausted_world 0)" and i = 0 and v = 5]
  by (simp add: exhausted_world_def first_handle_def)

section \<open>The free list\<close>

text \<open>
  C3: after \<^verbatim>\<open>deallocate\<close> of three distinct blocks \<open>a\<close>, \<open>b\<close>, \<open>c\<close> of the slab, in this
  order, the next three calls of \<^verbatim>\<open>allocate\<close> return \<open>c\<close>, then \<open>b\<close>, then \<open>a\<close>, and the head is
  back where it was.
\<close>

theorem free_list_is_lifo:
  "pools w this = Some p \<Longrightarrow> a < length (mPool p) \<Longrightarrow> b < length (mPool p) \<Longrightarrow>
   c < length (mPool p) \<Longrightarrow> a \<noteq> b \<Longrightarrow> a \<noteq> c \<Longrightarrow> b \<noteq> c \<Longrightarrow>
   (\<exists>w1 w2 w3 w4 w5 w6.
      deallocate this (Slot this a) w = Inr w1 \<and>
      deallocate this (Slot this b) w1 = Inr w2 \<and>
      deallocate this (Slot this c) w2 = Inr w3 \<and>
      allocate this w3 = Inr (Some (Slot this c), w4) \<and>
      allocate this w4 = Inr (Some (Slot this b), w5) \<and>
      allocate this w5 = Inr (Some (Slot this a), w6) \<and>
      map_option mNextFree (pools w6 this) = Some (mNextFree p))"
  by (simp add: deallocate_own allocate_own)

theorem free_list_is_lifo_witness:
  "(\<exists>w1 w2 w3 w4 w5 w6.
      deallocate 0 (Slot 0 0) claimed_world = Inr w1 \<and>
      deallocate 0 (Slot 0 1) w1 = Inr w2 \<and>
      deallocate 0 (Slot 0 2) w2 = Inr w3 \<and>
      allocate 0 w3 = Inr (Some (Slot 0 2), w4) \<and>
      allocate 0 w4 = Inr (Some (Slot 0 1), w5) \<and>
      allocate 0 w5 = Inr (Some (Slot 0 0), w6) \<and>
      map_option mNextFree (pools w6 0) = Some Null)"
  using free_list_is_lifo [where this = 0 and w = claimed_world
          and p = "the (pools claimed_world 0)" and a = 0 and b = 1 and c = 2]
  by (simp add: claimed_world_def)

text \<open>
  C6: \<^verbatim>\<open>deallocate\<close> of a block of the slab links it in front of the old head, makes it the
  head, and after that increments the counter by one.  A \<^verbatim>\<open>construct\<close> that returns a non-null
  handle has popped the handle's block, then decremented the counter by one, then constructed
  the value in that block.
\<close>

theorem release_pushes_then_increments_construct_decrements_then_builds:
  "(pools w this = Some p \<and> i < length (mPool p) \<longrightarrow>
      deallocate this (Slot this i) w =
        Inr (w\<lparr>pools := (pools w)(this \<mapsto>
                 p\<lparr>mPool := (mPool p)[i := mNext (mNextFree p)],
                   mNextFree := Slot this i,
                   mAvailable := mAvailable p + 1\<rparr>),
               events := events w @ [Pushed (Slot this i), Incremented this]\<rparr>)) \<and>
   (construct this v w = Inr (h, w') \<and> get h \<noteq> Null \<longrightarrow>
      events w' = events w @ [Popped (get h), Decremented this, Constructed (get h) v] \<and>
      load_block (get h) w' = Inr (mStorage (Some v)) \<and>
      (\<exists>q q'. pools w this = Some q \<and> pools w' this = Some q' \<and>
         mAvailable q' = mAvailable q - 1))"
  using construct_nonnull_cases [of this v w h w']
  by (auto simp: deallocate_own)

theorem release_pushes_then_increments_construct_decrements_then_builds_witness:
  "map_sum id events (deallocate 0 (Slot 0 0) exhausted_world) =
     Inr [Popped (Slot 0 0), Decremented 0, Constructed (Slot 0 0) 5,
          Pushed (Slot 0 0), Incremented 0] \<and>
   construct 0 5 fresh_world = Inr (first_handle, exhausted_world) \<and>
   get first_handle \<noteq> Null \<and>
   events exhausted_world =
     events fresh_world @ [Popped (Slot 0 0), Decremented 0, Constructed (Slot 0 0) 5] \<and>
   load_block (Slot 0 0) exhausted_world = Inr (mStorage (Some 5)) \<and>
   available 0 fresh_world = Inr 1 \<and> available 0 exhausted_world = Inr 0"
proof -
  have c: "construct 0 5 fresh_world = Inr (first_handle, exhausted_world)"
    by (rule fresh_world_construct)
  have n: "get first_handle \<noteq> Null"
    by (simp add: first_handle_def)
  note t = release_pushes_then_increments_construct_decrements_then_builds
          [where this = 0 and w = exhausted_world and p = "the (pools exhausted_world 0)"
             and i = 0]
       release_pushes_then_increments_construct_decrements_then_builds
          [where this = 0 and w = fresh_world and v = 5 and h = first_handle
             and w' = exhausted_world]
  from t(1) have "map_sum id events (deallocate 0 (Slot 0 0) exhausted_world) =
     Inr [Popped (Slot 0 0), Decremented 0, Constructed (Slot 0 0) 5,
          Pushed (Slot 0 0), Incremented 0]"
    by (simp add: exhausted_world_def)
  moreover from t(2) c n have "events exhausted_world =
     events fresh_world @ [Popped (Slot 0 0), Decremented 0, Constructed (Slot 0 0) 5] \<and>
     load_block (Slot 0 0) exhausted_world = Inr (mStorage (Some 5))"
    by (simp add: first_handle_def)
  moreover have "available 0 fresh_world = Inr 1 \<and> available 0 exhausted_world = Inr 0"
    by (simp add: available_def fresh_world_def exhausted_world_def)
  ultimately show ?thesis using c n by simp
qed

section \<open>Null addresses and exhaustion\<close>

text \<open>
  C8: \<^verbatim>\<open>destruct(nullptr)\<close> returns the world as it was.  On a block of the slab holding a live
  value it runs the destructor of the value and then deallocates the block.
\<close>

theorem destruct_null_is_noop_otherwise_destroys_then_releases:
  "destruct this Null w = Inr w \<and>
   (pools w this = Some pool \<and> i < length (mPool pool) \<and> mPool pool ! i = mStorage (Some v) \<longrightarrow>
      destruct this (Slot this i) w =
        Inr (w\<lparr>pools := (pools w)(this \<mapsto>
                 pool\<lparr>mPool := (mPool pool)[i := mNext (mNextFree pool)],
                      mNextFree := Slot this i,
                      mAvailable := mAvailable pool + 1\<rparr>),
               events := events w @
                 [Destroyed (Slot this i) v, Pushed (Slot this i), Incremented this]\<rparr>))"
  by (simp add: destruct_def destroy_at_own deallocate_own)

theorem destruct_null_is_noop_otherwise_destroys_then_releases_witness:
  "destruct 0 Null exhausted_world = Inr exhausted_world \<and>
   map_sum id events (destruct 0 (Slot 0 0) exhausted_world) =
     Inr [Popped (Slot 0 0), Decremented 0, Constructed (Slot 0 0) 5,
          Destroyed (Slot 0 0) 5, Pushed (Slot 0 0), Incremented 0] \<and>
   map_sum id (\<lambda>w. map_option mAvailable (pools w 0)) (destruct 0 (Slot 0 0) exhausted_world) =
     Inr (Some 1)"
  using destruct_null_is_noop_otherwise_destroys_then_releases
          [where this = 0 and w = exhausted_world
             and pool = "the (pools exhausted_world 0)" and i = 0 and v = 5]
  by (simp add: exhausted_world_def)

text \<open>
  C9: whenever \<^verbatim>\<open>construct\<close> returns a null handle, the world is the one it was called in: the
  head of the free list was and is null, and \<^verbatim>\<open>available()\<close> is unchanged.  On a pool whose free
  list is empty \<^verbatim>\<open>construct\<close> does return a null handle.
\<close>

theorem construct_on_exhausted_pool_changes_nothing:
  "(construct this v w = Inr (h, w') \<and> get h = Null \<longrightarrow>
      w' = w \<and> (\<exists>p. pools w this = Some p \<and> mNextFree p = Null) \<and>
      available this w' = available this w) \<and>
   (pools w this = Some p \<and> mNextFree p = Null \<longrightarrow>
      (\<exists>h. construct this v w = Inr (h, w) \<and> get h = Null))"
  using construct_null_cases [of this v w h w']
  by (auto simp: construct_exhausted)

theorem construct_on_exhausted_pool_changes_nothing_witness:
  "construct 0 7 exhausted_world = Inr (\<lparr>get = Null, get_deleter = SmartDeleter 0\<rparr>, exhausted_world) \<and>
   available 0 exhausted_world = Inr 0"
  using construct_on_exhausted_pool_changes_nothing
          [where this = 0 and v = 7 and w = exhausted_world and w' = exhausted_world
             and h = "\<lparr>get = Null, get_deleter = SmartDeleter 0\<rparr>"
             and p = "the (pools exhausted_world 0)"]
  by (auto simp: exhausted_world_def construct_exhausted available_def)

text \<open>
  C7: on a pool whose free list is empty, \<^verbatim>\<open>construct\<close> returns a null handle whose deleter
  holds the token of this pool, which resolves to this pool.  Destroying that handle, or
  passing it to either manual release path, in any later world (the pool alive or not), returns
  that world unchanged.
\<close>

theorem null_handle_is_bound_to_pool_and_safe_to_release:
  fixes w :: "'v world"
  shows "pools w this = Some p \<Longrightarrow> mNextFree p = Null \<Longrightarrow>
   (\<exists>h. construct this v w = Inr (h, w) \<and> get h = Null \<and>
        mParentPool (get_deleter h) = this \<and>
        pools w (mParentPool (get_deleter h)) = Some p \<and>
        (\<forall>w2 :: 'v world. unique_ptr_dtor h w2 = Inr w2) \<and>
        (\<forall>w2 :: 'v world. destruct_unique_ptr this h w2 = Inr w2) \<and>
        (\<forall>w2 :: 'v world. destruct_released this h w2 = Inr w2))"
  by (simp add: construct_exhausted unique_ptr_dtor_null destruct_unique_ptr_eq
        destruct_released_eq destruct_def)

theorem null_handle_is_bound_to_pool_and_safe_to_release_witness:
  "(\<exists>h. construct 0 7 exhausted_world = Inr (h, exhausted_world) \<and> get h = Null \<and>
        mParentPool (get_deleter h) = 0 \<and>
        unique_ptr_dtor h exhausted_world = Inr exhausted_world \<and>
        unique_ptr_dtor h orphaned_world = Inr orphaned_world \<and>
        destruct_unique_ptr 0 h exhausted_world = Inr exhausted_world)"
  using null_handle_is_bound_to_pool_and_safe_to_release
          [where this = 0 and v = 7 and w = exhausted_world
             and p = "the (pools exhausted_world 0)"]
  by (auto simp: exhausted_world_def)

section \<open>Capacity and the counter\<close>

text \<open>
  C4 does not hold of the code for every positive capacity.  The counter of the constructor's
  loop is an \<^verbatim>\<open>int\<close> (\<^verbatim>\<open>auto i = 1\<close>) while the capacity is a \<^verbatim>\<open>uint64_t\<close>.  For the capacity
  \<open>2147483650 = 2^31 + 2\<close> the counter reaches \<^verbatim>\<open>INT_MAX\<close> with blocks still to link, so
  \<^verbatim>\<open>i++\<close> overflows: the constructor does not deliver a pool whose \<open>2^31 + 2\<close> blocks are
  all on the free list.
\<close>

theorem constructor_overflows_beyond_INT_MAX:
  "SmartMemoryPool_ctor 2147483650 empty_world = Inl SignedOverflow"
proof -
  have "2147483647 < unat (2147483650 :: 64 word)"
    by simp
  then show ?thesis
    by (rule ctor_overflows)
qed

text \<open>
  Up to \<^verbatim>\<open>INT_MAX\<close> the capacity bound holds: when the constructor has returned a pool of
  capacity \<open>N > 0\<close>, the free list is the chain of all \<open>N\<close> blocks \<open>0, 1, ..., N - 1\<close> and the
  counter is \<open>N\<close>; \<open>N\<close> calls of \<^verbatim>\<open>construct\<close> in a row return handles on the blocks
  \<open>0, ..., N - 1\<close>, all non-null and distinct, and one more call returns a null handle and
  changes nothing; and whatever a sequential client does, it never holds more than \<open>N\<close>
  handles.
\<close>

lemma pool_within_INT_MAX_issues_exactly_N_handles:
  fixes w0 :: "'v world"
  shows "SmartMemoryPool_ctor N w0 = Inr (this, w) \<Longrightarrow> N \<noteq> 0 \<Longrightarrow> length vs = unat N \<Longrightarrow>
   (\<exists>p. pools w this = Some p \<and> length (mPool p) = unat N \<and>
        is_chain this (mPool p) (mNextFree p) [0..<unat N] \<and> mAvailable p = N) \<and>
   (\<exists>hs w'. construct_all this vs w = Inr (hs, w') \<and>
        map get hs = map (Slot this) [0..<unat N] \<and>
        (\<exists>h. construct this v w' = Inr (h, w') \<and> get h = Null)) \<and>
   (\<forall>ops hs w'. run this ops ([], w) = Inr (hs, w') \<longrightarrow> length hs \<le> unat N)"
proof -
  assume ctor: "SmartMemoryPool_ctor N w0 = Inr (this, w)" and pos: "N \<noteq> 0"
    and len: "length vs = unat N"
  from ctor pos have inv: "pool_inv this N w [0..<unat N] []"
    by (rule ctor_establishes_inv)
  then have free: "\<exists>p. pools w this = Some p \<and> length (mPool p) = unat N \<and>
        is_chain this (mPool p) (mNextFree p) [0..<unat N] \<and> mAvailable p = N"
    by (auto simp: pool_inv_def)
  from construct_all_keeps_inv [OF inv, of vs] len
  obtain hs w' where all: "construct_all this vs w = Inr (hs, w')"
      "map get hs = map (Slot this) [0..<unat N]" "pool_inv this N w' [] hs"
    by auto
  from all(3) have "construct this v w' = Inr (\<lparr>get = Null, get_deleter = SmartDeleter this\<rparr>, w')"
    by (rule construct_on_empty_inv)
  with all have full: "\<exists>hs w'. construct_all this vs w = Inr (hs, w') \<and>
        map get hs = map (Slot this) [0..<unat N] \<and>
        (\<exists>h. construct this v w' = Inr (h, w') \<and> get h = Null)"
    by auto
  have bound: "\<forall>ops hs w'. run this ops ([], w) = Inr (hs, w') \<longrightarrow> length hs \<le> unat N"
  proof (intro allI impI)
    fix ops hs w'
    assume r: "run this ops ([], w) = Inr (hs, w')"
    from run_keeps_inv [OF inv, of ops] r obtain fl' where "pool_inv this N w' fl' hs"
      by auto
    then show "length hs \<le> unat N" by (simp add: inv_available)
  qed
  from free full bound show ?thesis by blast
qed

lemma pool_within_INT_MAX_issues_exactly_N_handles_example:
  "SmartMemoryPool_ctor 2 empty_world = Inr (0, two_world) \<and>
   (\<exists>p. pools two_world 0 = Some p \<and> length (mPool p) = 2 \<and>
        is_chain 0 (mPool p) (mNextFree p) [0, 1] \<and> mAvailable p = 2) \<and>
   (\<exists>hs w'. construct_all 0 [5, 7] two_world = Inr (hs, w') \<and>
        map get hs = [Slot 0 0, Slot 0 1] \<and>
        (\<exists>h. construct 0 9 w' = Inr (h, w') \<and> get h = Null))"
  using pool_within_INT_MAX_issues_exactly_N_handles [OF two_ctor, where vs = "[5, 7]" and v = 9]
    two_ctor
  by (simp add: upt_conv_Cons)

text \<open>
  C5: for a pool of capacity \<open>K\<close> and any sequence of operations of a sequential client,
  whenever the sequence has run, \<^verbatim>\<open>available()\<close> is \<open>K\<close> minus the number of handles the client
  holds, which is at most \<open>K\<close> (so the subtraction does not wrap); it is \<open>K\<close> again once
  the client holds none.  For \<open>K > 0\<close> every sequence runs, without a fault.
\<close>

theorem available_is_capacity_minus_claimed:
  fixes w0 :: "'v world"
  shows "SmartMemoryPool_ctor K w0 = Inr (this, w) \<Longrightarrow>
   (K \<noteq> 0 \<longrightarrow> (\<exists>hs w'. run this ops ([], w) = Inr (hs, w'))) \<and>
   (\<forall>hs w'. run this ops ([], w) = Inr (hs, w') \<longrightarrow>
      length hs \<le> unat K \<and>
      available this w' = Inr (K - word_of_nat (length hs)) \<and>
      unat (K - word_of_nat (length hs)) = unat K - length hs \<and>
      (hs = [] \<longrightarrow> available this w' = Inr K))"
proof (cases "K = 0")
  case True
  assume ctor: "SmartMemoryPool_ctor K w0 = Inr (this, w)"
  with True obtain p where p: "pools w this = Some p" "mPool p = []"
      "mNextFree p = Slot this 0" "mAvailable p = 0"
    using ctor_zero [of w0 this w] by auto
  have "hs = [] \<and> w' = w" if "run this ops ([], w) = Inr (hs, w')" for hs w'
    using run_on_empty_slab [OF p(1-3) that] .
  with True p show ?thesis
    by (auto simp: available_def)
next
  case False
  assume ctor: "SmartMemoryPool_ctor K w0 = Inr (this, w)"
  from ctor False have inv: "pool_inv this K w [0..<unat K] []"
    by (rule ctor_establishes_inv)
  from run_keeps_inv [OF inv, of ops] obtain hs w' fl'
    where "run this ops ([], w) = Inr (hs, w')" "pool_inv this K w' fl' hs"
    by blast
  then show ?thesis
    by (auto simp: inv_available counter_as_nat)
qed

theorem available_is_capacity_minus_claimed_witness:
  "SmartMemoryPool_ctor 2 empty_world = Inr (0, two_world) \<and>
   (\<exists>w'. run 0 [Construct 5, Construct 7, Construct 9, Drop_handle 0, Construct 9,
               Destruct_handle 0, Destruct_address 0] ([], two_world) = Inr ([], w') \<and>
         available 0 w' = Inr 2) \<and>
   (\<exists>h1 h2 w'. run 0 [Construct 5, Construct 7, Construct 9] ([], two_world)
                   = Inr ([h1, h2], w') \<and>
         available 0 w' = Inr 0)"
proof -
  let ?ops = "[Construct 5, Construct 7, Construct 9, Drop_handle 0, Construct 9,
               Destruct_handle 0, Destruct_address 0] :: nat operation list"
  let ?ops' = "[Construct 5, Construct 7, Construct 9] :: nat operation list"
  note t = available_is_capacity_minus_claimed [OF two_ctor]
  have r: "\<exists>w'. run 0 ?ops ([], two_world) = Inr ([], w')"
    by (simp add: two_world_def eval_defs)
  have r': "\<exists>h1 h2 w'. run 0 ?ops' ([], two_world) = Inr ([h1, h2], w')"
    by (simp add: two_world_def eval_defs)
  from r t [of ?ops] have "\<exists>w'. run 0 ?ops ([], two_world) = Inr ([], w') \<and>
         available 0 w' = Inr 2"
    by fastforce
  moreover from r' t [of ?ops'] have "\<exists>h1 h2 w'. run 0 ?ops' ([], two_world)
                   = Inr ([h1, h2], w') \<and> available 0 w' = Inr 0"
    by fastforce
  ultimately show ?thesis using two_ctor by simp
qed

end
